theory Spec2Isabelle
  imports Main "HOL-Library.Word"
begin

section \<open>Strings of the source language\<close>

text \<open>
  A JavaScript string is a sequence of UTF-16 code units. The regular expressions of
  \<^verbatim>\<open>jira-client.ts\<close> carry no \<^verbatim>\<open>u\<close> flag, so they work on code units as well.
\<close>

type_synonym cu = "16 word"
type_synonym jstring = "cu list"

definition js :: "string \<Rightarrow> jstring" where
  \<comment> \<open>a literal of Latin-1 characters, read as code units\<close>
  "js s = map (\<lambda>c. of_nat (of_char c)) s"

definition NL :: cu where "NL = 0x0A"
definition BULLET :: cu where "BULLET = 0x2022"

definition is_line_terminator :: "cu \<Rightarrow> bool" where
  \<comment> \<open>ECMAScript LineTerminator: LF, CR, LS, PS\<close>
  "is_line_terminator c = (c = 0x0A \<or> c = 0x0D \<or> c = 0x2028 \<or> c = 0x2029)"

definition is_space :: "cu \<Rightarrow> bool" where
  \<comment> \<open>ECMAScript WhiteSpace and LineTerminator: what \<^verbatim>\<open>\s\<close> matches and what
      \<^verbatim>\<open>String.prototype.trim\<close> strips\<close>
  "is_space c =
     (c = 0x09 \<or> c = 0x0A \<or> c = 0x0B \<or> c = 0x0C \<or> c = 0x0D \<or> c = 0x20 \<or> c = 0xA0
      \<or> c = 0x1680 \<or> (0x2000 \<le> c \<and> c \<le> 0x200A) \<or> c = 0x2028 \<or> c = 0x2029
      \<or> c = 0x202F \<or> c = 0x205F \<or> c = 0x3000 \<or> c = 0xFEFF)"

definition is_digit :: "cu \<Rightarrow> bool" where
  \<comment> \<open>\<^verbatim>\<open>\d\<close>\<close>
  "is_digit c = (0x30 \<le> c \<and> c \<le> 0x39)"

definition is_dot :: "cu \<Rightarrow> bool" where
  \<comment> \<open>\<^verbatim>\<open>.\<close> without the \<^verbatim>\<open>s\<close> flag: any code unit but a line terminator\<close>
  "is_dot c = (\<not> is_line_terminator c)"

definition trim :: "jstring \<Rightarrow> jstring" where
  "trim s = rev (dropWhile is_space (rev (dropWhile is_space s)))"

definition startsWith :: "jstring \<Rightarrow> jstring \<Rightarrow> bool" where
  "startsWith s p = (take (length p) s = p)"

definition substring :: "jstring \<Rightarrow> nat \<Rightarrow> nat \<Rightarrow> jstring" where
  \<comment> \<open>\<^verbatim>\<open>s.substring(a, b)\<close>: the arguments are swapped when \<open>a > b\<close>\<close>
  "substring s a b = take (max a b - min a b) (drop (min a b) s)"

fun split :: "cu \<Rightarrow> jstring \<Rightarrow> jstring list" where
  "split sep [] = [[]]"
| "split sep (c # cs) =
     (if c = sep then [] # split sep cs
      else (case split sep cs of [] \<Rightarrow> [[c]] | l # ls \<Rightarrow> (c # l) # ls))"

fun join :: "jstring \<Rightarrow> jstring list \<Rightarrow> jstring" where
  "join sep [] = []"
| "join sep [l] = l"
| "join sep (l # ls) = l @ sep @ join sep ls"

section \<open>Backtracking matcher for the regular expressions of the source\<close>

text \<open>
  Every regular expression of the converter is an ordered alternation of sequences of
  three kinds of item: one code unit of a class, a greedy repetition of a class
  (captured or not), and the end anchor. The matcher follows the ECMAScript semantics:
  alternatives in order, a greedy repetition tries the longest run first and gives
  code units back one at a time.
\<close>

datatype item =
    One "cu \<Rightarrow> bool"
  | Rep "nat option" "cu \<Rightarrow> bool" nat "nat option"
  | Bol
  | Eol

definition capture :: "nat option \<Rightarrow> jstring \<Rightarrow> (nat \<times> jstring) list" where
  "capture g s = (case g of None \<Rightarrow> [] | Some i \<Rightarrow> [(i, s)])"

definition greedy_max :: "(cu \<Rightarrow> bool) \<Rightarrow> nat option \<Rightarrow> jstring \<Rightarrow> nat" where
  "greedy_max p hi s =
     (let n = length (takeWhile p s) in case hi of None \<Rightarrow> n | Some h \<Rightarrow> min h n)"

fun m_items :: "item list \<Rightarrow> nat \<Rightarrow> jstring \<Rightarrow> ((nat \<times> jstring) list \<times> nat) option"
  and m_rep ::
    "nat option \<Rightarrow> item list \<Rightarrow> nat \<Rightarrow> jstring \<Rightarrow> nat \<Rightarrow> nat \<Rightarrow> ((nat \<times> jstring) list \<times> nat) option"
where
  "m_items [] pos s = Some ([], 0)"
| "m_items (One p # its) pos s =
     (case s of [] \<Rightarrow> None
      | c # s' \<Rightarrow>
          if p c then
            (case m_items its (Suc pos) s' of None \<Rightarrow> None
             | Some (caps, n) \<Rightarrow> Some (caps, Suc n))
          else None)"
| "m_items (Rep g p lo hi # its) pos s = m_rep g its pos s lo (greedy_max p hi s)"
| "m_items (Bol # its) pos s = (if pos = 0 then m_items its pos s else None)"
| "m_items (Eol # its) pos s = (if s = [] then m_items its pos s else None)"
| "m_rep g its pos s lo k =
     (if k < lo then None
      else (case m_items its (pos + k) (drop k s) of
              Some (caps, n) \<Rightarrow> Some (capture g (take k s) @ caps, k + n)
            | None \<Rightarrow> if k = 0 then None else m_rep g its pos s lo (k - 1)))"

declare m_rep.simps [simp del]

type_synonym regex = "item list list"

fun m_alts :: "regex \<Rightarrow> nat \<Rightarrow> jstring \<Rightarrow> ((nat \<times> jstring) list \<times> nat) option" where
  "m_alts [] pos s = None"
| "m_alts (a # as) pos s =
     (case m_items a pos s of Some r \<Rightarrow> Some r | None \<Rightarrow> m_alts as pos s)"

text \<open>
  A match object: \<open>index\<close> is \<^verbatim>\<open>match.index\<close>, \<open>grp i\<close> is \<^verbatim>\<open>match[i]\<close>, with \<open>None\<close>
  for \<^verbatim>\<open>undefined\<close> (a group that took no part in the match).
\<close>

record rmatch =
  index :: nat
  grp :: "nat \<Rightarrow> jstring option"

definition mk_match :: "nat list \<Rightarrow> nat \<Rightarrow> jstring \<Rightarrow> (nat \<times> jstring) list \<times> nat \<Rightarrow> rmatch" where
  \<comment> \<open>\<open>whole\<close> lists the groups that enclose the entire pattern: group 0 always, and
      group 1 where the pattern is one parenthesised alternation\<close>
  "mk_match whole pos s r =
     \<lparr>index = pos,
      grp = (\<lambda>i. if i \<in> set whole then Some (take (snd r) s) else map_of (fst r) i)\<rparr>"

fun re_search :: "regex \<Rightarrow> nat list \<Rightarrow> nat \<Rightarrow> jstring \<Rightarrow> rmatch option" where
  \<comment> \<open>the leftmost position, from \<open>pos\<close> on, at which some alternative matches; \<open>s\<close> is the
      input from \<open>pos\<close> on\<close>
  "re_search re whole pos s =
     (case m_alts re pos s of
        Some r \<Rightarrow> Some (mk_match whole pos s r)
      | None \<Rightarrow> (case s of [] \<Rightarrow> None | c # s' \<Rightarrow> re_search re whole (Suc pos) s'))"

declare re_search.simps [simp del]

definition exec :: "regex \<Rightarrow> nat list \<Rightarrow> jstring \<Rightarrow> nat \<Rightarrow> rmatch option" where
  \<comment> \<open>\<^verbatim>\<open>regex.exec(text)\<close> of a global regex whose \<^verbatim>\<open>lastIndex\<close> is the last argument\<close>
  "exec re whole text lastIndex =
     (if lastIndex > length text then None
      else re_search re whole lastIndex (drop lastIndex text))"

definition match_length :: "rmatch \<Rightarrow> nat" where
  \<comment> \<open>\<^verbatim>\<open>match[0].length\<close>\<close>
  "match_length m = (case grp m 0 of None \<Rightarrow> 0 | Some w \<Rightarrow> length w)"

definition str_match :: "jstring \<Rightarrow> regex \<Rightarrow> rmatch option" where
  \<comment> \<open>\<^verbatim>\<open>s.match(re)\<close> for a regex without the \<^verbatim>\<open>g\<close> flag\<close>
  "str_match s re = re_search re [0] 0 s"

definition str_replace_empty :: "jstring \<Rightarrow> regex \<Rightarrow> jstring" where
  \<comment> \<open>\<^verbatim>\<open>s.replace(re, '')\<close> for a regex without the \<^verbatim>\<open>g\<close> flag\<close>
  "str_replace_empty s re =
     (case str_match s re of
        None \<Rightarrow> s
      | Some m \<Rightarrow> take (index m) s @ drop (index m + match_length m) s)"

definition truthy :: "jstring option \<Rightarrow> bool" where
  \<comment> \<open>a string is truthy when it is not empty; \<^verbatim>\<open>undefined\<close> is falsy\<close>
  "truthy v = (case v of None \<Rightarrow> False | Some s \<Rightarrow> s \<noteq> [])"

definition str :: "jstring option \<Rightarrow> jstring" where
  "str v = (case v of None \<Rightarrow> [] | Some s \<Rightarrow> s)"

section \<open>The regular expressions\<close>

definition ch :: "char \<Rightarrow> cu" where
  "ch c = of_nat (of_char c)"

definition eqc :: "char \<Rightarrow> cu \<Rightarrow> bool" where
  "eqc c x = (x = ch c)"

definition neqc :: "char \<Rightarrow> cu \<Rightarrow> bool" where
  "neqc c x = (x \<noteq> ch c)"

definition inline_regex :: regex where
  \<comment> \<open>\<^verbatim>\<open>/(\[([^\]]+)\]\(([^)]+)\)|`([^`]*)`|\*\*([^*]+)\*\*|__([^_]+)__|~~([^~]+)~~|\*([^*]+)\*|_([^_]+)_)/g\<close>\<close>
  "inline_regex =
     [[One (eqc CHR ''[''), Rep (Some 2) (neqc CHR '']'') 1 None, One (eqc CHR '']''),
       One (eqc CHR ''(''), Rep (Some 3) (neqc CHR '')'') 1 None, One (eqc CHR '')'')],
      [One (eqc CHR 0x60), Rep (Some 4) (neqc CHR 0x60) 0 None, One (eqc CHR 0x60)],
      [One (eqc CHR ''*''), One (eqc CHR ''*''), Rep (Some 5) (neqc CHR ''*'') 1 None,
       One (eqc CHR ''*''), One (eqc CHR ''*'')],
      [One (eqc CHR ''_''), One (eqc CHR ''_''), Rep (Some 6) (neqc CHR ''_'') 1 None,
       One (eqc CHR ''_''), One (eqc CHR ''_'')],
      [One (eqc CHR ''~''), One (eqc CHR ''~''), Rep (Some 7) (neqc CHR ''~'') 1 None,
       One (eqc CHR ''~''), One (eqc CHR ''~'')],
      [One (eqc CHR ''*''), Rep (Some 8) (neqc CHR ''*'') 1 None, One (eqc CHR ''*'')],
      [One (eqc CHR ''_''), Rep (Some 9) (neqc CHR ''_'') 1 None, One (eqc CHR ''_'')]]"

definition heading_regex :: regex where
  \<comment> \<open>\<^verbatim>\<open>/^(#{1,6})\s+(.+)$/\<close>\<close>
  "heading_regex =
     [[Bol, Rep (Some 1) (eqc CHR ''#'') 1 (Some 6), Rep None is_space 1 None,
       Rep (Some 2) is_dot 1 None, Eol]]"

definition bullet_regex :: regex where
  \<comment> \<open>\<^verbatim>\<open>/^[-*\<bullet>]\s/\<close>, the third member of the class being U+2022\<close>
  "bullet_regex =
     [[Bol, One (\<lambda>c. c = ch CHR ''-'' \<or> c = ch CHR ''*'' \<or> c = BULLET), One is_space]]"

definition ordered_regex :: regex where
  \<comment> \<open>\<^verbatim>\<open>/^\d+\.\s/\<close>\<close>
  "ordered_regex = [[Bol, Rep None is_digit 1 None, One (eqc CHR ''.''), One is_space]]"

section \<open>The document tree\<close>

datatype mark = Link jstring | Code | Strong | Strike | Em

text \<open>
  The nodes the converter builds. A text node built without a \<^verbatim>\<open>marks\<close> property has
  the empty mark list; the \<^verbatim>\<open>attrs\<close> of a code block are its optional language, those
  of a heading its level, and \<open>Doc\<close> carries the version.
\<close>

datatype node =
    Text jstring "mark list"
  | Paragraph "node list"
  | Heading nat "node list"
  | BulletList "node list"
  | OrderedList "node list"
  | ListItem "node list"
  | CodeBlock "jstring option" "node list"
  | Doc nat "node list"

section \<open>parseInlineFormatting\<close>

definition push_plain :: "jstring \<Rightarrow> nat \<Rightarrow> rmatch \<Rightarrow> node list \<Rightarrow> node list" where
  \<comment> \<open>the plain text between the previous match and this one\<close>
  "push_plain text currentPos m result =
     (if index m > currentPos then
        (let plainText = substring text currentPos (index m)
         in if plainText \<noteq> [] then result @ [Text plainText []] else result)
      else result)"

definition push_match :: "rmatch \<Rightarrow> node list \<Rightarrow> node list" where
  \<comment> \<open>the chain of tests on the groups of the match\<close>
  "push_match m result =
     (if truthy (grp m 1) \<and> truthy (grp m 2) \<and> truthy (grp m 3) then
        result @ [Text (str (grp m 2)) [Link (str (grp m 3))]]
      else if grp m 4 \<noteq> None then result @ [Text (str (grp m 4)) [Code]]
      else if truthy (grp m 5) then result @ [Text (str (grp m 5)) [Strong]]
      else if truthy (grp m 6) then result @ [Text (str (grp m 6)) [Strong]]
      else if truthy (grp m 7) then result @ [Text (str (grp m 7)) [Strike]]
      else if truthy (grp m 8) then result @ [Text (str (grp m 8)) [Em]]
      else if truthy (grp m 9) then result @ [Text (str (grp m 9)) [Em]]
      else result)"

definition inline_exec :: "jstring \<Rightarrow> nat \<Rightarrow> rmatch option" where
  "inline_exec text lastIndex = exec inline_regex [0, 1] text lastIndex"

lemma m_items_length:
  "m_items its pos s = Some r \<Longrightarrow> snd r \<le> length s"
  "m_rep g its pos s lo k = Some r \<Longrightarrow> k \<le> length s \<Longrightarrow> snd r \<le> length s"
proof (induction its pos s and g its pos s lo k arbitrary: r and r rule: m_items_m_rep.induct)
  case (1 pos s)
  then show ?case by auto
next
  case (2 p its pos s)
  then show ?case by (fastforce split: list.splits if_splits option.splits)
next
  case (3 g p lo hi its pos s)
  have "greedy_max p hi s \<le> length s"
    by (auto simp: greedy_max_def Let_def length_takeWhile_le split: option.splits
             intro: le_trans [OF min.cobounded2])
  with 3 show ?case by simp
next
  case (4 its pos s)
  then show ?case by (simp split: if_splits)
next
  case (5 its pos s)
  then show ?case by (simp split: if_splits)
next
  case (6 g its pos s lo k)
  show ?case
  proof (cases "m_items its (pos + k) (drop k s)")
    case None
    with 6 show ?thesis by (simp split: if_splits add: m_rep.simps [of g its pos s lo k])
  next
    case (Some a)
    with 6 show ?thesis by (fastforce split: if_splits prod.splits simp add: m_rep.simps [of g its pos s lo k])
  qed
qed

lemma m_items_One_nonempty:
  "m_items (One p # its) pos s = Some r \<Longrightarrow> 0 < snd r"
  by (auto split: list.splits if_splits option.splits)

lemma m_alts_inline_nonempty:
  assumes "m_alts inline_regex pos s = Some r"
  shows "0 < snd r"
  using assms unfolding inline_regex_def
  by (auto split: option.splits dest: m_items_One_nonempty simp del: m_items.simps)

lemma m_alts_length:
  "m_alts re pos s = Some r \<Longrightarrow> snd r \<le> length s"
  by (induction re) (auto split: option.splits dest: m_items_length(1))

lemma re_search_bounds:
  assumes "re_search re whole pos s = Some m" and "0 \<in> set whole"
  shows "pos \<le> index m \<and> index m + match_length m \<le> pos + length s"
  using assms
proof (induction s arbitrary: pos)
  case Nil
  then show ?case
    by (auto simp: re_search.simps [of re whole pos "[]"] mk_match_def match_length_def
             split: option.splits)
next
  case (Cons c s)
  show ?case
  proof (cases "m_alts re pos (c # s)")
    case None
    with Cons.prems have "re_search re whole (Suc pos) s = Some m"
      by (simp add: re_search.simps [of re whole pos "c # s"])
    from Cons.IH [OF this Cons.prems(2)] show ?thesis by simp
  next
    case (Some r)
    with Cons.prems show ?thesis
      by (auto simp: re_search.simps [of re whole pos "c # s"] mk_match_def match_length_def)
  qed
qed

lemma re_search_inline_nonempty:
  assumes "re_search inline_regex whole pos s = Some m" and "0 \<in> set whole"
  shows "0 < match_length m"
  using assms
proof (induction s arbitrary: pos)
  case Nil
  show ?case
  proof (cases "m_alts inline_regex pos []")
    case None
    with Nil show ?thesis by (simp add: re_search.simps [of inline_regex whole pos "[]"])
  next
    case (Some r)
    from m_alts_inline_nonempty [OF Some] m_alts_length [OF Some]
    show ?thesis by simp
  qed
next
  case (Cons c s)
  show ?case
  proof (cases "m_alts inline_regex pos (c # s)")
    case None
    with Cons.prems have "re_search inline_regex whole (Suc pos) s = Some m"
      by (simp add: re_search.simps [of inline_regex whole pos "c # s"])
    from Cons.IH [OF this Cons.prems(2)] show ?thesis .
  next
    case (Some r)
    from m_alts_inline_nonempty [OF Some] m_alts_length [OF Some] Some Cons.prems
    show ?thesis
      by (auto simp: re_search.simps [of inline_regex whole pos "c # s"] mk_match_def
                     match_length_def)
  qed
qed

lemma inline_exec_advances:
  assumes "inline_exec text lastIndex = Some m"
  shows "lastIndex < index m + match_length m" and "index m + match_length m \<le> length text"
    and "lastIndex \<le> index m"
proof -
  from assms have le: "lastIndex \<le> length text"
    and rs: "re_search inline_regex [0, 1] lastIndex (drop lastIndex text) = Some m"
    by (auto simp: inline_exec_def exec_def split: if_splits)
  from re_search_bounds [OF rs] re_search_inline_nonempty [OF rs] le
  show "lastIndex < index m + match_length m" and "index m + match_length m \<le> length text"
    and "lastIndex \<le> index m"
    by auto
qed

function scan :: "jstring \<Rightarrow> nat \<Rightarrow> nat \<Rightarrow> node list \<Rightarrow> nat \<times> node list" where
  \<comment> \<open>the \<^verbatim>\<open>while\<close> loop; the state is \<^verbatim>\<open>regex.lastIndex\<close>, \<^verbatim>\<open>currentPos\<close> and
      \<^verbatim>\<open>result\<close>, and the value is the last two when \<^verbatim>\<open>exec\<close> returns null\<close>
  "scan text lastIndex currentPos result =
     (case inline_exec text lastIndex of
        None \<Rightarrow> (currentPos, result)
      | Some m \<Rightarrow>
          scan text (index m + match_length m) (index m + match_length m)
            (push_match m (push_plain text currentPos m result)))"
  by pat_completeness auto
termination
proof (relation "measure (\<lambda>(text, lastIndex, currentPos, result). Suc (length text) - lastIndex)")
  show "wf (measure (\<lambda>(text, lastIndex, currentPos, result). Suc (length text) - lastIndex))"
    by simp
next
  fix t :: jstring and lastIndex currentPos :: nat and result :: "node list" and m
  assume "inline_exec t lastIndex = Some m"
  from inline_exec_advances [OF this]
  show "((t, index m + match_length m, index m + match_length m,
          push_match m (push_plain t currentPos m result)),
         (t, lastIndex, currentPos, result))
        \<in> measure (\<lambda>(text, lastIndex, currentPos, result). Suc (length text) - lastIndex)"
    by simp
qed

declare scan.simps [simp del]

definition parseInlineFormatting :: "jstring \<Rightarrow> node list" where
  "parseInlineFormatting text =
     (let (currentPos, result) = scan text 0 0 [];
          result =
            (if currentPos < length text then
               (let plainText = drop currentPos text
                in if plainText \<noteq> [] then result @ [Text plainText []] else result)
             else result)
      in if length result = 0 then [Text text []] else result)"

section \<open>textToADF\<close>

record state =
  content :: "node list"
  inCodeBlock :: bool
  codeBlockLines :: "jstring list"
  codeLanguage :: jstring

definition init :: state where
  "init = \<lparr>content = [], inCodeBlock = False, codeBlockLines = [], codeLanguage = []\<rparr>"

fun node_type :: "node \<Rightarrow> string" where
  "node_type (Text t ms) = ''text''"
| "node_type (Paragraph c) = ''paragraph''"
| "node_type (Heading l c) = ''heading''"
| "node_type (BulletList c) = ''bulletList''"
| "node_type (OrderedList c) = ''orderedList''"
| "node_type (ListItem c) = ''listItem''"
| "node_type (CodeBlock a c) = ''codeBlock''"
| "node_type (Doc v c) = ''doc''"

fun push_child :: "node \<Rightarrow> node \<Rightarrow> node" where
  \<comment> \<open>\<^verbatim>\<open>node.content.push(child)\<close>. A text node has no \<^verbatim>\<open>content\<close>, and the push would
      raise there; the converter pushes only into a node whose type it has tested to be a
      list (lemma \<open>list_type_has_content\<close>), so the last equation is never used\<close>
  "push_child (Paragraph c) x = Paragraph (c @ [x])"
| "push_child (Heading l c) x = Heading l (c @ [x])"
| "push_child (BulletList c) x = BulletList (c @ [x])"
| "push_child (OrderedList c) x = OrderedList (c @ [x])"
| "push_child (ListItem c) x = ListItem (c @ [x])"
| "push_child (CodeBlock a c) x = CodeBlock a (c @ [x])"
| "push_child (Doc v c) x = Doc v (c @ [x])"
| "push_child (Text t ms) x = Text t ms"

definition codeBlockNode :: "jstring \<Rightarrow> jstring list \<Rightarrow> node" where
  "codeBlockNode lang ls =
     CodeBlock (if lang \<noteq> [] then Some lang else None) [Text (join [NL] ls) []]"

definition listItemNode :: "jstring \<Rightarrow> node" where
  "listItemNode listItem = ListItem [Paragraph (parseInlineFormatting listItem)]"

definition add_item :: "string \<Rightarrow> (node list \<Rightarrow> node) \<Rightarrow> jstring \<Rightarrow> node list \<Rightarrow> node list" where
  \<comment> \<open>append to the last block when it is a list of the given type, else start a list\<close>
  "add_item ty mk listItem c =
     (if length c > 0 \<and> node_type (last c) = ty then
        butlast c @ [push_child (last c) (listItemNode listItem)]
      else c @ [mk [listItemNode listItem]])"

definition step :: "state \<Rightarrow> jstring \<Rightarrow> state" where
  \<comment> \<open>the body of the \<^verbatim>\<open>for\<close> loop over the lines\<close>
  "step st line =
     (if startsWith (trim line) (js [CHR 0x60, CHR 0x60, CHR 0x60]) then
        (if \<not> inCodeBlock st then
           st\<lparr>inCodeBlock := True, codeLanguage := trim (drop 3 (trim line)),
              codeBlockLines := []\<rparr>
         else
           st\<lparr>inCodeBlock := False,
              content := content st @ [codeBlockNode (codeLanguage st) (codeBlockLines st)],
              codeBlockLines := [], codeLanguage := []\<rparr>)
      else if inCodeBlock st then st\<lparr>codeBlockLines := codeBlockLines st @ [line]\<rparr>
      else if trim line = [] then st
      else
        (case str_match line heading_regex of
           Some headingMatch \<Rightarrow>
             (let level = length (str (grp headingMatch 1));
                  headingText = str (grp headingMatch 2)
              in st\<lparr>content := content st @ [Heading level (parseInlineFormatting headingText)]\<rparr>)
         | None \<Rightarrow>
             if str_match (trim line) bullet_regex \<noteq> None then
               st\<lparr>content := add_item ''bulletList'' BulletList (drop 2 (trim line)) (content st)\<rparr>
             else if str_match (trim line) ordered_regex \<noteq> None then
               st\<lparr>content :=
                    add_item ''orderedList'' OrderedList
                      (str_replace_empty (trim line) ordered_regex) (content st)\<rparr>
             else st\<lparr>content := content st @ [Paragraph (parseInlineFormatting line)]\<rparr>))"

definition run_lines :: "state \<Rightarrow> jstring list \<Rightarrow> state" where
  "run_lines st ls = foldl step st ls"

definition flush :: "state \<Rightarrow> node list" where
  \<comment> \<open>the unclosed code block, after the loop\<close>
  "flush st =
     (if inCodeBlock st \<and> length (codeBlockLines st) > 0 then
        content st @ [codeBlockNode (codeLanguage st) (codeBlockLines st)]
      else content st)"

definition finalize :: "node list \<Rightarrow> node" where
  "finalize c = Doc 1 (if length c > 0 then c else [Paragraph []])"

definition textToADF :: "jstring \<Rightarrow> node" where
  "textToADF text = finalize (flush (run_lines init (split NL text)))"

fun doc_content :: "node \<Rightarrow> node list" where
  "doc_content (Doc v c) = c"
| "doc_content n = []"

section \<open>The document is never empty\<close>

lemma finalize_content:
  "doc_content (finalize c) = (if c = [] then [Paragraph []] else c)"
  by (simp add: finalize_def)

text \<open>
  C1. For every input string the conversion returns a document (the model has no failing
  branch: every path of the source ends in the \<^verbatim>\<open>return\<close>) whose block sequence is
  not empty; and whenever the accumulator is empty once all lines and the end of the
  input have been handled, the document is exactly one paragraph with no inline content.
\<close>

theorem C1_document_never_empty:
  "(\<exists>c. textToADF s = Doc 1 c \<and> c \<noteq> [])
   \<and> doc_content (textToADF s) \<noteq> []
   \<and> (flush (run_lines init (split NL s)) = [] \<longrightarrow> textToADF s = Doc 1 [Paragraph []])"
  by (simp add: textToADF_def finalize_def)

theorem C1_document_never_empty_witness:
  "flush (run_lines init (split NL [])) = [] \<and> textToADF [] = Doc 1 [Paragraph []]"
proof -
  have h: "flush (run_lines init (split NL [])) = []"
    by code_simp
  from C1_document_never_empty [of "[]"] h show ?thesis
    by blast
qed

section \<open>End of the input inside a code block\<close>

lemma textToADF_open_block:
  assumes "inCodeBlock (run_lines init (split NL s))"
    and "codeBlockLines (run_lines init (split NL s)) \<noteq> []"
  shows "textToADF s =
           Doc 1 (content (run_lines init (split NL s))
                  @ [codeBlockNode (codeLanguage (run_lines init (split NL s)))
                       (codeBlockLines (run_lines init (split NL s)))])"
  using assms by (simp add: textToADF_def flush_def finalize_def)

lemma textToADF_open_block_empty:
  assumes "inCodeBlock (run_lines init (split NL s))"
    and "codeBlockLines (run_lines init (split NL s)) = []"
  shows "doc_content (textToADF s) =
           (if content (run_lines init (split NL s)) = [] then [Paragraph []]
            else content (run_lines init (split NL s)))"
  using assms by (simp add: textToADF_def flush_def finalize_def)

text \<open>
  C2, as stated, fails: the input that is only an opening fence ends inside an open code
  block, and the conversion emits no code block for it but the empty paragraph.
\<close>

theorem C2_counterexample:
  "inCodeBlock (run_lines init (split NL (js ''```'')))
   \<and> textToADF (js ''```'') = Doc 1 [Paragraph []]"
  by code_simp

text \<open>
  C2, amended. For every input that ends inside an open code block whose buffer holds at
  least one line, the document is the blocks emitted so far followed by one code block:
  its language is the recorded one (absent when empty) and its code is the buffered lines
  joined by newlines. In particular an opening fence followed by the line \<open>x\<close> gives one
  code block with code \<open>x\<close>.
\<close>

theorem C2_unterminated_fence_flushed:
  "(inCodeBlock (run_lines init (split NL s))
      \<and> codeBlockLines (run_lines init (split NL s)) \<noteq> [] \<longrightarrow>
    textToADF s =
      Doc 1 (content (run_lines init (split NL s))
             @ [CodeBlock
                  (if codeLanguage (run_lines init (split NL s)) \<noteq> []
                   then Some (codeLanguage (run_lines init (split NL s))) else None)
                  [Text (join [NL] (codeBlockLines (run_lines init (split NL s)))) []]]))
   \<and> textToADF (js ''```'' @ [NL] @ js ''x'') = Doc 1 [CodeBlock None [Text (js ''x'') []]]"
proof
  show "inCodeBlock (run_lines init (split NL s))
      \<and> codeBlockLines (run_lines init (split NL s)) \<noteq> [] \<longrightarrow>
    textToADF s =
      Doc 1 (content (run_lines init (split NL s))
             @ [CodeBlock
                  (if codeLanguage (run_lines init (split NL s)) \<noteq> []
                   then Some (codeLanguage (run_lines init (split NL s))) else None)
                  [Text (join [NL] (codeBlockLines (run_lines init (split NL s)))) []]])"
    using textToADF_open_block [of s] by (simp add: codeBlockNode_def)
  show "textToADF (js ''```'' @ [NL] @ js ''x'') = Doc 1 [CodeBlock None [Text (js ''x'') []]]"
    by code_simp
qed

theorem C2_unterminated_fence_flushed_witness:
  "inCodeBlock (run_lines init (split NL (js ''```js'' @ [NL] @ js ''a'' @ [NL] @ js ''b'')))
   \<and> codeBlockLines (run_lines init (split NL (js ''```js'' @ [NL] @ js ''a'' @ [NL] @ js ''b''))) \<noteq> []
   \<and> textToADF (js ''```js'' @ [NL] @ js ''a'' @ [NL] @ js ''b'')
       = Doc 1 [CodeBlock (Some (js ''js'')) [Text (js ''a'' @ [NL] @ js ''b'') []]]"
proof -
  let ?s = "js ''```js'' @ [NL] @ js ''a'' @ [NL] @ js ''b''"
  have st: "run_lines init (split NL ?s)
            = \<lparr>content = [], inCodeBlock = True, codeBlockLines = [js ''a'', js ''b''],
               codeLanguage = js ''js''\<rparr>"
    by code_simp
  have h: "inCodeBlock (run_lines init (split NL ?s))
           \<and> codeBlockLines (run_lines init (split NL ?s)) \<noteq> []"
    unfolding st by simp
  from C2_unterminated_fence_flushed [of ?s] h
  have "textToADF ?s =
      Doc 1 (content (run_lines init (split NL ?s))
             @ [CodeBlock
                  (if codeLanguage (run_lines init (split NL ?s)) \<noteq> []
                   then Some (codeLanguage (run_lines init (split NL ?s))) else None)
                  [Text (join [NL] (codeBlockLines (run_lines init (split NL ?s)))) []]])"
    by blast
  then have "textToADF ?s = Doc 1 [CodeBlock (Some (js ''js'')) [Text (js ''a'' @ [NL] @ js ''b'') []]]"
    unfolding st by (simp add: js_def)
  with h show ?thesis by blast
qed

text \<open>
  C10, as stated, fails: an input can end inside an open code block with an empty buffer
  after other blocks have been emitted, and then the document is those blocks, not the
  empty paragraph.
\<close>

theorem C10_counterexample:
  "inCodeBlock (run_lines init (split NL (js ''x'' @ [NL] @ js ''```'')))
   \<and> codeBlockLines (run_lines init (split NL (js ''x'' @ [NL] @ js ''```''))) = []
   \<and> textToADF (js ''x'' @ [NL] @ js ''```'') = Doc 1 [Paragraph [Text (js ''x'') []]]
   \<and> textToADF (js ''x'' @ [NL] @ js ''```'') \<noteq> Doc 1 [Paragraph []]"
  by code_simp

text \<open>
  C10, amended. If the input ends inside an open code block with an empty buffer, no code
  block is emitted for that open block: the document holds exactly the blocks emitted
  before, and when there are none, as for the input that is exactly an opening fence, it
  is the single empty paragraph.
\<close>

theorem C10_open_block_empty_buffer:
  "(inCodeBlock (run_lines init (split NL s))
      \<and> codeBlockLines (run_lines init (split NL s)) = [] \<longrightarrow>
    textToADF s =
      Doc 1 (if content (run_lines init (split NL s)) = [] then [Paragraph []]
             else content (run_lines init (split NL s))))
   \<and> textToADF (js ''```'') = Doc 1 [Paragraph []]"
proof
  show "inCodeBlock (run_lines init (split NL s))
      \<and> codeBlockLines (run_lines init (split NL s)) = [] \<longrightarrow>
    textToADF s =
      Doc 1 (if content (run_lines init (split NL s)) = [] then [Paragraph []]
             else content (run_lines init (split NL s)))"
    by (simp add: textToADF_def flush_def finalize_def)
  show "textToADF (js ''```'') = Doc 1 [Paragraph []]"
    by code_simp
qed

theorem C10_open_block_empty_buffer_witness:
  "inCodeBlock (run_lines init (split NL (js ''```'')))
   \<and> codeBlockLines (run_lines init (split NL (js ''```''))) = []
   \<and> content (run_lines init (split NL (js ''```''))) = []
   \<and> textToADF (js ''```'') = Doc 1 [Paragraph []]"
proof -
  have st: "run_lines init (split NL (js ''```''))
            = \<lparr>content = [], inCodeBlock = True, codeBlockLines = [], codeLanguage = []\<rparr>"
    by code_simp
  have h: "inCodeBlock (run_lines init (split NL (js ''```'')))
           \<and> codeBlockLines (run_lines init (split NL (js ''```''))) = []"
    unfolding st by simp
  from C10_open_block_empty_buffer [of "js ''```''"] h
  have "textToADF (js ''```'') =
      Doc 1 (if content (run_lines init (split NL (js ''```''))) = [] then [Paragraph []]
             else content (run_lines init (split NL (js ''```''))))"
    by blast
  with h show ?thesis unfolding st by simp
qed

section \<open>The inline tokenizer\<close>

lemma m_rep_hit:
  "lo \<le> k \<Longrightarrow> m_items its (pos + k) (drop k s) = Some (caps, n) \<Longrightarrow>
   m_rep g its pos s lo k = Some (capture g (take k s) @ caps, k + n)"
  by (simp add: m_rep.simps [of g its pos s lo k])

lemma re_search_hit:
  "m_alts re pos s = Some r \<Longrightarrow> re_search re whole pos s = Some (mk_match whole pos s r)"
  by (simp add: re_search.simps [of re whole pos s])

lemma re_search_inline_Nil: "re_search inline_regex whole pos [] = None"
  by (simp add: re_search.simps [of _ whole pos "[]"] inline_regex_def)

lemma inline_exec_end: "inline_exec t (length t) = None"
  by (simp add: inline_exec_def exec_def re_search_inline_Nil)

lemma greedy_max_run:
  assumes "\<forall>c\<in>set x. p c" and "\<not> p d"
  shows "greedy_max p None (x @ d # rest) = length x"
  using assms by (simp add: greedy_max_def)

text \<open>
  C4. When the pattern matches nowhere in the line (the first \<^verbatim>\<open>exec\<close> returns null),
  the tokenizer returns exactly one text node without marks whose text is the whole line;
  a line with a stray asterisk is such a line. The tokenizer is a total function: no
  path of it fails.
\<close>

theorem C4_no_match_single_plain_run:
  "inline_exec line 0 = None \<Longrightarrow> parseInlineFormatting line = [Text line []]"
  by (cases line) (simp_all add: parseInlineFormatting_def scan.simps [of _ 0 0 "[]"])

theorem C4_no_match_single_plain_run_witness:
  "inline_exec (js ''2 * 3 [x'') 0 = None
   \<and> parseInlineFormatting (js ''2 * 3 [x'') = [Text (js ''2 * 3 [x'') []]"
proof -
  have h: "inline_exec (js ''2 * 3 [x'') 0 = None"
    by code_simp
  from C4_no_match_single_plain_run [OF h] h show ?thesis
    by blast
qed

subsection \<open>Bold before italic\<close>

lemma bold_exec:
  assumes "x \<noteq> []" and "ch CHR ''*'' \<notin> set x"
  shows "inline_exec (js ''**'' @ x @ js ''**'') 0
         = Some (mk_match [0, 1] 0 (js ''**'' @ x @ js ''**'') ([(5, x)], length x + 4))"
proof -
  let ?star = "ch CHR ''*''"
  have gm: "greedy_max (neqc CHR ''*'') None (x @ [?star, ?star]) = length x"
    using assms(2) by (intro greedy_max_run) (auto simp: neqc_def)
  have len: "Suc 0 \<le> length x" using assms(1) by (cases x) auto
  have js2: "js ''**'' = [?star, ?star]" by (simp add: js_def ch_def)
  have ne: "?star \<noteq> ch CHR ''[''" "?star \<noteq> ch CHR 0x60"
    by (simp_all add: ch_def)
  have tail: "m_items [One (eqc CHR ''*''), One (eqc CHR ''*'')] (pos + length x)
                (drop (length x) (x @ [?star, ?star])) = Some ([], 2)" for pos
    by (simp add: eqc_def)
  have rep: "m_rep (Some 5) [One (eqc CHR ''*''), One (eqc CHR ''*'')] pos (x @ [?star, ?star])
               (Suc 0) (length x) = Some ([(5, x)], length x + 2)" for pos
    using m_rep_hit [OF len tail, of "Some 5" pos] by (simp add: capture_def)
  have alts: "m_alts inline_regex 0 (?star # ?star # x @ [?star, ?star])
              = Some ([(5, x)], length x + 4)"
    by (simp add: inline_regex_def eqc_def ne gm rep)
  show ?thesis
    unfolding js2 using re_search_hit [OF alts, of "[0, 1]"]
    by (simp add: inline_exec_def exec_def)
qed

lemma bold_tokens:
  assumes "x \<noteq> []" and "ch CHR ''*'' \<notin> set x"
  shows "parseInlineFormatting (js ''**'' @ x @ js ''**'') = [Text x [Strong]]"
proof -
  let ?t = "js ''**'' @ x @ js ''**''"
  let ?m = "mk_match [0, 1] 0 ?t ([(5, x)], length x + 4)"
  have len2: "length (js ''**'') = 2" by (simp add: js_def)
  have ml: "index ?m + match_length ?m = length ?t"
    by (simp add: mk_match_def match_length_def len2)
  have pm: "push_match ?m (push_plain ?t 0 ?m []) = [Text x [Strong]]"
    using assms(1)
    by (simp add: mk_match_def push_plain_def push_match_def truthy_def str_def)
  have "scan ?t 0 0 [] = scan ?t (length ?t) (length ?t) [Text x [Strong]]"
    by (subst scan.simps) (simp only: bold_exec [OF assms] option.case ml pm)
  also have "\<dots> = (length ?t, [Text x [Strong]])"
    by (subst scan.simps) (simp only: inline_exec_end option.case)
  finally show ?thesis
    by (simp add: parseInlineFormatting_def)
qed

text \<open>
  C8. The alternatives of the pattern stand in the order link, code, bold, strikethrough,
  italic, and \<open>m_alts\<close> takes the first that matches at a position. So a text between
  double asterisks is one bold node: \<^verbatim>\<open>**bold**\<close> gives exactly one node, text \<open>bold\<close>,
  mark \<open>strong\<close>, and the same holds for every non-empty text without an asterisk
  between the double asterisks; the italic alternative never gets its turn.
\<close>

theorem C8_bold_not_italic:
  "parseInlineFormatting (js ''**bold**'') = [Text (js ''bold'') [Strong]]
   \<and> (x \<noteq> [] \<and> ch CHR ''*'' \<notin> set x \<longrightarrow>
        parseInlineFormatting (js ''**'' @ x @ js ''**'') = [Text x [Strong]])"
proof
  show "parseInlineFormatting (js ''**bold**'') = [Text (js ''bold'') [Strong]]"
    by code_simp
  show "x \<noteq> [] \<and> ch CHR ''*'' \<notin> set x \<longrightarrow>
        parseInlineFormatting (js ''**'' @ x @ js ''**'') = [Text x [Strong]]"
    using bold_tokens [of x] by blast
qed

theorem C8_bold_not_italic_witness:
  "js ''a_b'' \<noteq> [] \<and> ch CHR ''*'' \<notin> set (js ''a_b'')
   \<and> parseInlineFormatting (js ''**'' @ js ''a_b'' @ js ''**'') = [Text (js ''a_b'') [Strong]]"
proof -
  have h: "js ''a_b'' \<noteq> [] \<and> ch CHR ''*'' \<notin> set (js ''a_b'')"
    by (simp add: js_def ch_def)
  from C8_bold_not_italic [of "js ''a_b''"] h show ?thesis
    by blast
qed

subsection \<open>At most one mark on a node\<close>

definition text_run :: "node \<Rightarrow> bool" where
  "text_run n = (\<exists>txt ms. n = Text txt ms \<and> length ms \<le> 1)"

lemma push_plain_runs:
  "\<forall>n\<in>set result. text_run n \<Longrightarrow> \<forall>n\<in>set (push_plain t cp m result). text_run n"
  by (auto simp: push_plain_def Let_def text_run_def)

lemma push_match_runs:
  "\<forall>n\<in>set result. text_run n \<Longrightarrow> \<forall>n\<in>set (push_match m result). text_run n"
  by (auto simp: push_match_def text_run_def)

lemma scan_runs:
  "\<forall>n\<in>set result. text_run n \<Longrightarrow> \<forall>n\<in>set (snd (scan t li cp result)). text_run n"
proof (induction t li cp result rule: scan.induct)
  case (1 t li cp result)
  show ?case
  proof (cases "inline_exec t li")
    case None
    with "1.prems" show ?thesis by (simp add: scan.simps [of t li cp result])
  next
    case (Some m)
    from "1.prems" have "\<forall>n\<in>set (push_match m (push_plain t cp m result)). text_run n"
      by (intro push_match_runs push_plain_runs)
    from "1.IH" [OF Some this] Some show ?thesis
      by (simp add: scan.simps [of t li cp result])
  qed
qed

lemma tokens_at_most_one_mark:
  "\<forall>n\<in>set (parseInlineFormatting t). \<exists>txt ms. n = Text txt ms \<and> length ms \<le> 1"
proof -
  have "\<forall>n\<in>set (snd (scan t 0 0 [])). text_run n"
    by (rule scan_runs) simp
  then have "\<forall>n\<in>set (parseInlineFormatting t). text_run n"
    by (cases "scan t 0 0 []") (auto simp: parseInlineFormatting_def Let_def text_run_def)
  then show ?thesis by (simp add: text_run_def)
qed

section \<open>The lines of a document\<close>

lemma trim_prefix: "dropWhile is_space line = trim line @ rev (takeWhile is_space (rev (dropWhile is_space line)))"
proof -
  let ?r = "rev (dropWhile is_space line)"
  have "rev ?r = rev (takeWhile is_space ?r @ dropWhile is_space ?r)"
    by (simp only: takeWhile_dropWhile_id)
  also have "\<dots> = rev (dropWhile is_space ?r) @ rev (takeWhile is_space ?r)"
    by (rule rev_append)
  finally show ?thesis by (simp add: trim_def)
qed

lemma trim_Cons:
  assumes "trim line = m # rest"
  shows "line \<noteq> []" and "\<not> is_space m" and "hd line \<noteq> m \<longrightarrow> is_space (hd line)"
proof -
  from trim_prefix [of line] assms
  obtain tl where dw: "dropWhile is_space line = m # tl" by auto
  then show "line \<noteq> []" by auto
  from dw hd_dropWhile [of is_space line] show "\<not> is_space m" by auto
  from dw show "hd line \<noteq> m \<longrightarrow> is_space (hd line)"
    by (cases line) (auto split: if_splits)
qed

lemma last_dropWhile:
  "xs \<noteq> [] \<Longrightarrow> \<not> P (last xs) \<Longrightarrow> dropWhile P xs \<noteq> [] \<and> last (dropWhile P xs) = last xs"
  by (induction xs) (auto split: if_splits)

lemma trim_hd:
  assumes "line \<noteq> []" and "\<not> is_space (hd line)"
  shows "trim line \<noteq> [] \<and> hd (trim line) = hd line"
proof -
  from assms have dw: "dropWhile is_space line = line" by (cases line) auto
  from assms have "rev line \<noteq> []" "\<not> is_space (last (rev line))"
    by (simp_all add: last_rev)
  from last_dropWhile [of "rev line" is_space, OF this]
  have "dropWhile is_space (rev line) \<noteq> []"
    and "last (dropWhile is_space (rev line)) = hd line"
    by (simp_all add: last_rev)
  then show ?thesis by (simp add: trim_def dw hd_rev)
qed

lemma re_search_Bol:
  "0 < pos \<Longrightarrow> re_search [Bol # its] whole pos s = None"
  by (induction s arbitrary: pos) (simp_all add: re_search.simps [of _ whole _ "[]"] re_search.simps [of _ whole _ "_ # _"])

lemma str_match_Bol:
  "str_match s [Bol # its] = (case m_items its 0 s of None \<Rightarrow> None | Some r \<Rightarrow> Some (mk_match [0] 0 s r))"
  by (cases s) (auto simp: str_match_def re_search.simps [of _ "[0]" 0] re_search_Bol split: option.splits)

lemma hash_not_space: "\<not> is_space (ch CHR ''#'')"
  by (simp add: is_space_def ch_def)

lemma heading_no_match:
  assumes "line = [] \<or> hd line \<noteq> ch CHR ''#''"
  shows "str_match line heading_regex = None"
proof -
  from assms have "greedy_max (eqc CHR ''#'') (Some 6) line = 0"
    by (cases line) (auto simp: greedy_max_def eqc_def)
  then show ?thesis
    by (simp add: heading_regex_def str_match_Bol m_rep.simps [of _ _ _ _ _ 0])
qed

lemma fence_js: "js ''```'' = [ch CHR 0x60, ch CHR 0x60, ch CHR 0x60]"
  by (simp add: js_def ch_def)

lemma not_fence:
  assumes "t = [] \<or> hd t \<noteq> ch CHR 0x60"
  shows "\<not> startsWith t (js ''```'')"
  using assms by (cases t) (auto simp: startsWith_def fence_js)

lemma bullet_match:
  assumes "m = ch CHR ''-'' \<or> m = ch CHR ''*'' \<or> m = BULLET" and "is_space w"
  shows "str_match (m # w # rest) bullet_regex \<noteq> None"
  using assms by (auto simp: bullet_regex_def str_match_Bol)

lemma list_type_has_content:
  "node_type n = ''bulletList'' \<Longrightarrow> \<exists>c. n = BulletList c"
  "node_type n = ''orderedList'' \<Longrightarrow> \<exists>c. n = OrderedList c"
  by (cases n; simp)+

lemma add_item_no_text_push:
  assumes "ty = ''bulletList'' \<or> ty = ''orderedList''"
    and "length c > 0" and "node_type (last c) = ty"
  shows "\<exists>l. push_child (last c) x = BulletList l \<or> push_child (last c) x = OrderedList l"
  using assms list_type_has_content [of "last c"] by auto

subsection \<open>Bullet items\<close>

lemma add_item_bullet:
  "add_item ''bulletList'' BulletList x c =
     (case rev c of
        BulletList items # before \<Rightarrow> rev before @ [BulletList (items @ [listItemNode x])]
      | _ \<Rightarrow> c @ [BulletList [listItemNode x]])"
proof (cases c rule: rev_cases)
  case Nil
  then show ?thesis by (simp add: add_item_def)
next
  case (snoc before b)
  then show ?thesis by (cases b) (simp_all add: add_item_def)
qed

lemma step_bullet:
  assumes "trim line = m # w # rest"
    and "m = ch CHR ''-'' \<or> m = ch CHR ''*'' \<or> m = BULLET" and "is_space w"
    and "\<not> inCodeBlock st"
  shows "step st line = st\<lparr>content := add_item ''bulletList'' BulletList rest (content st)\<rparr>"
proof -
  have m_ne: "m \<noteq> ch CHR 0x60" "m \<noteq> ch CHR ''#''"
    using assms(2) by (auto simp: ch_def BULLET_def)
  from m_ne(1) assms(1) have nf: "\<not> startsWith (trim line) (js ''```'')"
    by (intro not_fence) simp
  from trim_Cons [OF assms(1)] m_ne(2) hash_not_space
  have "line = [] \<or> hd line \<noteq> ch CHR ''#''" by auto
  then have nh: "str_match line heading_regex = None" by (rule heading_no_match)
  from bullet_match [OF assms(2,3)] assms(1)
  have bm: "str_match (trim line) bullet_regex \<noteq> None" by simp
  show ?thesis
    using nf nh bm assms(4) assms(1) by (simp add: step_def)
qed


text \<open>
  C5. A line whose trimmed form starts with a hyphen, an asterisk or a bullet followed by
  a whitespace code unit, met outside a code block, is a bullet item: the two leading code
  units are dropped, the remainder is tokenized, and the new item is appended to the last
  emitted block when that block is a bullet list, and otherwise starts a new bullet list
  at the end of the blocks. Two bullet lines in a row make one list of two items in order;
  bullet lines separated by a paragraph make two lists.
\<close>

theorem C5_bullet_items:
  "(trim line = m # w # rest \<and> (m = ch CHR ''-'' \<or> m = ch CHR ''*'' \<or> m = BULLET)
      \<and> is_space w \<and> \<not> inCodeBlock st \<longrightarrow>
    step st line =
      st\<lparr>content :=
           (case rev (content st) of
              BulletList items # before \<Rightarrow>
                rev before
                @ [BulletList (items @ [ListItem [Paragraph (parseInlineFormatting rest)]])]
            | _ \<Rightarrow>
                content st @ [BulletList [ListItem [Paragraph (parseInlineFormatting rest)]]])\<rparr>)
   \<and> textToADF (js ''- a'' @ [NL] @ js ''- b'')
       = Doc 1 [BulletList [ListItem [Paragraph [Text (js ''a'') []]],
                            ListItem [Paragraph [Text (js ''b'') []]]]]
   \<and> textToADF (js ''- a'' @ [NL] @ js ''x'' @ [NL] @ js ''- b'')
       = Doc 1 [BulletList [ListItem [Paragraph [Text (js ''a'') []]]],
                Paragraph [Text (js ''x'') []],
                BulletList [ListItem [Paragraph [Text (js ''b'') []]]]]"
proof (intro conjI impI)
  assume h: "trim line = m # w # rest \<and> (m = ch CHR ''-'' \<or> m = ch CHR ''*'' \<or> m = BULLET)
      \<and> is_space w \<and> \<not> inCodeBlock st"
  then have "step st line = st\<lparr>content := add_item ''bulletList'' BulletList rest (content st)\<rparr>"
    by (intro step_bullet [of line m w rest st]) simp_all
  then show "step st line =
      st\<lparr>content :=
           (case rev (content st) of
              BulletList items # before \<Rightarrow>
                rev before
                @ [BulletList (items @ [ListItem [Paragraph (parseInlineFormatting rest)]])]
            | _ \<Rightarrow>
                content st @ [BulletList [ListItem [Paragraph (parseInlineFormatting rest)]]])\<rparr>"
    by (simp only: add_item_bullet listItemNode_def)
next
  show "textToADF (js ''- a'' @ [NL] @ js ''- b'')
       = Doc 1 [BulletList [ListItem [Paragraph [Text (js ''a'') []]],
                            ListItem [Paragraph [Text (js ''b'') []]]]]"
    by code_simp
next
  show "textToADF (js ''- a'' @ [NL] @ js ''x'' @ [NL] @ js ''- b'')
       = Doc 1 [BulletList [ListItem [Paragraph [Text (js ''a'') []]]],
                Paragraph [Text (js ''x'') []],
                BulletList [ListItem [Paragraph [Text (js ''b'') []]]]]"
    by code_simp
qed

theorem C5_bullet_items_witness:
  "trim (js ''  * b '') = ch CHR ''*'' # ch CHR '' '' # js ''b''
   \<and> (ch CHR ''*'' = ch CHR ''-'' \<or> ch CHR ''*'' = ch CHR ''*'' \<or> ch CHR ''*'' = BULLET)
   \<and> is_space (ch CHR '' '')
   \<and> \<not> inCodeBlock (init\<lparr>content := [Paragraph [], BulletList [ListItem [Paragraph [Text (js ''a'') []]]]]\<rparr>)
   \<and> step (init\<lparr>content := [Paragraph [], BulletList [ListItem [Paragraph [Text (js ''a'') []]]]]\<rparr>)
        (js ''  * b '')
       = init\<lparr>content := [Paragraph [],
                            BulletList [ListItem [Paragraph [Text (js ''a'') []]],
                                        ListItem [Paragraph [Text (js ''b'') []]]]]\<rparr>"
proof -
  let ?st = "init\<lparr>content := [Paragraph [], BulletList [ListItem [Paragraph [Text (js ''a'') []]]]]\<rparr>"
  have t: "trim (js ''  * b '') = ch CHR ''*'' # ch CHR '' '' # js ''b''"
    by code_simp
  have sp: "is_space (ch CHR '' '')"
    by code_simp
  have nc: "\<not> inCodeBlock ?st"
    by (simp add: init_def)
  have p: "parseInlineFormatting (js ''b'') = [Text (js ''b'') []]"
    by code_simp
  from C5_bullet_items [of "js ''  * b ''" "ch CHR ''*''" "ch CHR '' ''" "js ''b''" ?st] t sp nc
  have "step ?st (js ''  * b '') =
      ?st\<lparr>content :=
           (case rev (content ?st) of
              BulletList items # before \<Rightarrow>
                rev before
                @ [BulletList (items @ [ListItem [Paragraph (parseInlineFormatting (js ''b''))]])]
            | _ \<Rightarrow>
                content ?st @ [BulletList [ListItem [Paragraph (parseInlineFormatting (js ''b''))]]])\<rparr>"
    by blast
  then have "step ?st (js ''  * b '')
       = init\<lparr>content := [Paragraph [],
                            BulletList [ListItem [Paragraph [Text (js ''a'') []]],
                                        ListItem [Paragraph [Text (js ''b'') []]]]]\<rparr>"
    by (simp add: p init_def)
  with t sp nc show ?thesis by blast
qed

subsection \<open>Fenced code\<close>

lemma step_inner:
  "inCodeBlock st \<Longrightarrow> \<not> startsWith (trim l) (js ''```'') \<Longrightarrow>
   step st l = st\<lparr>codeBlockLines := codeBlockLines st @ [l]\<rparr>"
  by (simp add: step_def)

lemma run_inner:
  "inCodeBlock st \<Longrightarrow> \<forall>l\<in>set ls. \<not> startsWith (trim l) (js ''```'') \<Longrightarrow>
   run_lines st ls = st\<lparr>codeBlockLines := codeBlockLines st @ ls\<rparr>"
proof (induction ls arbitrary: st)
  case Nil
  then show ?case by (simp add: run_lines_def)
next
  case (Cons l ls)
  from Cons.prems have s1: "step st l = st\<lparr>codeBlockLines := codeBlockLines st @ [l]\<rparr>"
    by (simp add: step_inner)
  have "run_lines st (l # ls) = run_lines (step st l) ls"
    by (simp add: run_lines_def)
  also have "\<dots> = (step st l)\<lparr>codeBlockLines := codeBlockLines (step st l) @ ls\<rparr>"
    using Cons.prems by (intro Cons.IH) (simp_all add: s1)
  finally show ?case by (simp add: s1)
qed

lemma run_fenced:
  assumes "\<not> inCodeBlock st" and "startsWith (trim f) (js ''```'')"
    and "\<forall>l\<in>set ls. \<not> startsWith (trim l) (js ''```'')"
  shows "run_lines st (f # ls) =
           st\<lparr>inCodeBlock := True, codeLanguage := trim (drop 3 (trim f)), codeBlockLines := ls\<rparr>"
proof -
  let ?st1 = "st\<lparr>inCodeBlock := True, codeLanguage := trim (drop 3 (trim f)), codeBlockLines := []\<rparr>"
  from assms(1,2) have s1: "step st f = ?st1"
    by (simp add: step_def)
  have "run_lines st (f # ls) = run_lines ?st1 ls"
    by (simp add: run_lines_def s1)
  also have "\<dots> = ?st1\<lparr>codeBlockLines := codeBlockLines ?st1 @ ls\<rparr>"
    using assms(3) by (intro run_inner) simp_all
  finally show ?thesis by simp
qed

lemma run_fenced_closed:
  assumes "\<not> inCodeBlock st" and "startsWith (trim f) (js ''```'')"
    and "\<forall>l\<in>set ls. \<not> startsWith (trim l) (js ''```'')"
    and "startsWith (trim g) (js ''```'')"
  shows "run_lines st (f # ls @ [g]) =
           st\<lparr>inCodeBlock := False,
              content := content st @ [codeBlockNode (trim (drop 3 (trim f))) ls],
              codeBlockLines := [], codeLanguage := []\<rparr>"
proof -
  have "run_lines st (f # ls @ [g]) = step (run_lines st (f # ls)) g"
    by (simp add: run_lines_def)
  then show ?thesis
    using assms(4) by (simp add: run_fenced [OF assms(1-3)] step_def)
qed

lemma split_Cons_line:
  "sep \<notin> set l \<Longrightarrow> split sep (l @ sep # r) = l # split sep r"
  by (induction l) auto

lemma split_line: "sep \<notin> set l \<Longrightarrow> split sep l = [l]"
  by (induction l) auto

lemma split_join:
  "ls \<noteq> [] \<Longrightarrow> \<forall>l\<in>set ls. sep \<notin> set l \<Longrightarrow> split sep (join [sep] ls) = ls"
proof (induction ls)
  case Nil
  then show ?case by simp
next
  case (Cons l ls)
  show ?case
  proof (cases ls)
    case Nil
    with Cons.prems show ?thesis by (simp add: split_line)
  next
    case (Cons l' ls')
    with Cons.prems Cons.IH show ?thesis by (simp add: split_Cons_line)
  qed
qed

lemma flush_closed: "\<not> inCodeBlock st \<Longrightarrow> flush st = content st"
  by (simp add: flush_def)

text \<open>
  C6. An opening fence met outside a code block, then lines that are not fences, then a
  closing fence: after the opening fence and the inner lines the buffer holds the inner
  lines as they are and the language is the text after the three backticks of the
  trimmed opening fence, trimmed; the closing fence appends one code block whose code is
  the inner lines joined by newlines (no tokenization) and whose language is the recorded
  one, absent when it is empty, and resets the state. A text made of exactly such lines
  converts to that one code block; the example of the specification is an instance.
\<close>

theorem C6_fenced_code_block:
  "(\<not> inCodeBlock st \<and> startsWith (trim f) (js ''```'')
      \<and> (\<forall>l\<in>set ls. \<not> startsWith (trim l) (js ''```''))
      \<and> startsWith (trim g) (js ''```'') \<longrightarrow>
    run_lines st (f # ls) =
      st\<lparr>inCodeBlock := True, codeLanguage := trim (drop 3 (trim f)), codeBlockLines := ls\<rparr>
    \<and> run_lines st (f # ls @ [g]) =
      st\<lparr>inCodeBlock := False,
         content := content st
           @ [CodeBlock (if trim (drop 3 (trim f)) \<noteq> [] then Some (trim (drop 3 (trim f))) else None)
                [Text (join [NL] ls) []]],
         codeBlockLines := [], codeLanguage := []\<rparr>
    \<and> (NL \<notin> set f \<and> NL \<notin> set g \<and> (\<forall>l\<in>set ls. NL \<notin> set l) \<longrightarrow>
       textToADF (join [NL] (f # ls @ [g])) =
         Doc 1 [CodeBlock (if trim (drop 3 (trim f)) \<noteq> [] then Some (trim (drop 3 (trim f))) else None)
                  [Text (join [NL] ls) []]]))
   \<and> textToADF (js ''```js'' @ [NL] @ js ''code()'' @ [NL] @ js ''```'')
       = Doc 1 [CodeBlock (Some (js ''js'')) [Text (js ''code()'') []]]"
proof (intro conjI impI)
  assume h: "\<not> inCodeBlock st \<and> startsWith (trim f) (js ''```'')
      \<and> (\<forall>l\<in>set ls. \<not> startsWith (trim l) (js ''```''))
      \<and> startsWith (trim g) (js ''```'')"
  then show "run_lines st (f # ls) =
      st\<lparr>inCodeBlock := True, codeLanguage := trim (drop 3 (trim f)), codeBlockLines := ls\<rparr>"
    by (intro run_fenced) simp_all
  from h have "run_lines st (f # ls @ [g]) =
           st\<lparr>inCodeBlock := False,
              content := content st @ [codeBlockNode (trim (drop 3 (trim f))) ls],
              codeBlockLines := [], codeLanguage := []\<rparr>"
    by (intro run_fenced_closed) simp_all
  then show "run_lines st (f # ls @ [g]) =
      st\<lparr>inCodeBlock := False,
         content := content st
           @ [CodeBlock (if trim (drop 3 (trim f)) \<noteq> [] then Some (trim (drop 3 (trim f))) else None)
                [Text (join [NL] ls) []]],
         codeBlockLines := [], codeLanguage := []\<rparr>"
    by (simp only: codeBlockNode_def)
  assume n: "NL \<notin> set f \<and> NL \<notin> set g \<and> (\<forall>l\<in>set ls. NL \<notin> set l)"
  then have sp: "split NL (join [NL] (f # ls @ [g])) = f # ls @ [g]"
    by (intro split_join) auto
  from h have r: "run_lines init (f # ls @ [g]) =
           init\<lparr>inCodeBlock := False,
              content := content init @ [codeBlockNode (trim (drop 3 (trim f))) ls],
              codeBlockLines := [], codeLanguage := []\<rparr>"
    by (intro run_fenced_closed) (simp_all add: init_def)
  show "textToADF (join [NL] (f # ls @ [g])) =
         Doc 1 [CodeBlock (if trim (drop 3 (trim f)) \<noteq> [] then Some (trim (drop 3 (trim f))) else None)
                  [Text (join [NL] ls) []]]"
    unfolding textToADF_def sp r
    by (simp add: flush_closed finalize_def init_def codeBlockNode_def)
next
  show "textToADF (js ''```js'' @ [NL] @ js ''code()'' @ [NL] @ js ''```'')
       = Doc 1 [CodeBlock (Some (js ''js'')) [Text (js ''code()'') []]]"
    by code_simp
qed

theorem C6_fenced_code_block_witness:
  "\<not> inCodeBlock init \<and> startsWith (trim (js ''``` py '')) (js ''```'')
   \<and> \<not> startsWith (trim (js ''a'')) (js ''```'')
   \<and> \<not> startsWith (trim (js ''**b**'')) (js ''```'')
   \<and> startsWith (trim (js '' ```'')) (js ''```'')
   \<and> run_lines init [js ''``` py '', js ''a'', js ''**b**'', js '' ```'']
       = init\<lparr>content := [CodeBlock (Some (js ''py'')) [Text (js ''a'' @ [NL] @ js ''**b**'') []]]\<rparr>
   \<and> textToADF (js ''``` py '' @ [NL] @ js ''a'' @ [NL] @ js ''**b**'' @ [NL] @ js '' ```'')
       = Doc 1 [CodeBlock (Some (js ''py'')) [Text (js ''a'' @ [NL] @ js ''**b**'') []]]"
proof -
  let ?f = "js ''``` py ''" and ?ls = "[js ''a'', js ''**b**'']" and ?g = "js '' ```''"
  have h1: "\<not> inCodeBlock init" by (simp add: init_def)
  have h2: "startsWith (trim ?f) (js ''```'')" by code_simp
  have h3: "\<not> startsWith (trim (js ''a'')) (js ''```'')"
    "\<not> startsWith (trim (js ''**b**'')) (js ''```'')" by code_simp+
  have h4: "startsWith (trim ?g) (js ''```'')" by code_simp
  have h5: "NL \<notin> set ?f \<and> NL \<notin> set ?g \<and> (\<forall>l\<in>set ?ls. NL \<notin> set l)"
    by (simp add: js_def NL_def)
  have lang: "trim (drop 3 (trim ?f)) = js ''py''" by code_simp
  have j: "join [NL] (?f # ?ls @ [?g])
           = js ''``` py '' @ [NL] @ js ''a'' @ [NL] @ js ''**b**'' @ [NL] @ js '' ```''"
    by simp
  have ne: "js ''py'' \<noteq> []" by (simp add: js_def)
  from h1 h2 h3 h4 have h: "\<not> inCodeBlock init \<and> startsWith (trim ?f) (js ''```'')
      \<and> (\<forall>l\<in>set ?ls. \<not> startsWith (trim l) (js ''```''))
      \<and> startsWith (trim ?g) (js ''```'')"
    by simp
  from C6_fenced_code_block [of init ?f ?ls ?g] h h5
  have "run_lines init (?f # ?ls @ [?g]) =
      init\<lparr>inCodeBlock := False,
         content := content init
           @ [CodeBlock (if trim (drop 3 (trim ?f)) \<noteq> [] then Some (trim (drop 3 (trim ?f))) else None)
                [Text (join [NL] ?ls) []]],
         codeBlockLines := [], codeLanguage := []\<rparr>"
    and "textToADF (join [NL] (?f # ?ls @ [?g])) =
         Doc 1 [CodeBlock (if trim (drop 3 (trim ?f)) \<noteq> [] then Some (trim (drop 3 (trim ?f))) else None)
                  [Text (join [NL] ?ls) []]]"
    by blast+
  then have "run_lines init [?f, js ''a'', js ''**b**'', ?g]
       = init\<lparr>content := [CodeBlock (Some (js ''py'')) [Text (js ''a'' @ [NL] @ js ''**b**'') []]]\<rparr>"
    and "textToADF (js ''``` py '' @ [NL] @ js ''a'' @ [NL] @ js ''**b**'' @ [NL] @ js '' ```'')
       = Doc 1 [CodeBlock (Some (js ''py'')) [Text (js ''a'' @ [NL] @ js ''**b**'') []]]"
    unfolding lang j by (simp_all add: ne init_def)
  with h1 h2 h3 h4 show ?thesis by blast
qed

subsection \<open>Headings and blank lines\<close>

lemma takeWhile_run:
  "\<forall>c\<in>set x. p c \<Longrightarrow> rest = [] \<or> \<not> p (hd rest) \<Longrightarrow> takeWhile p (x @ rest) = x"
  by (cases rest) (simp_all add: takeWhile_append2)

lemma heading_match:
  assumes "1 \<le> k" and "k \<le> 6" and "ws \<noteq> []" and "\<forall>c\<in>set ws. is_space c"
    and "body \<noteq> []" and "\<not> is_space (hd body)" and "\<forall>c\<in>set body. \<not> is_line_terminator c"
  shows "str_match (replicate k (ch CHR ''#'') @ ws @ body) heading_regex =
           Some (mk_match [0] 0 (replicate k (ch CHR ''#'') @ ws @ body)
                   ([(1, replicate k (ch CHR ''#'')), (2, body)], k + length ws + length body))"
proof -
  let ?h = "replicate k (ch CHR ''#'')"
  have e3: "m_items [Eol] pos (drop (length body) body) = Some ([], 0)" for pos
    by simp
  have td: "takeWhile is_dot body = body"
    using assms(7) by (simp add: takeWhile_eq_all_conv is_dot_def)
  have g3: "greedy_max is_dot None body = length body"
    by (simp add: greedy_max_def td)
  have l3: "1 \<le> length body" using assms(5) by (cases body) auto
  have r3: "m_items [Rep (Some 2) is_dot 1 None, Eol] pos body = Some ([(2, body)], length body)" for pos
    using m_rep_hit [OF l3 e3, of "Some 2" pos] by (simp add: g3 capture_def)
  have "takeWhile is_space (ws @ body) = ws"
    using assms(4,6) by (intro takeWhile_run) simp_all
  then have g2: "greedy_max is_space None (ws @ body) = length ws"
    by (simp only: greedy_max_def Let_def option.case)
  have l2: "1 \<le> length ws" using assms(3) by (cases ws) auto
  have r2: "m_items [Rep None is_space 1 None, Rep (Some 2) is_dot 1 None, Eol] pos (ws @ body)
            = Some ([(2, body)], length ws + length body)" for pos
    using m_rep_hit [of 1 "length ws" "[Rep (Some 2) is_dot 1 None, Eol]" pos "ws @ body"
                       "[(2, body)]" "length body" None] l2 r3
    by (simp add: g2 capture_def)
  have "ws @ body \<noteq> []" "\<not> eqc CHR ''#'' (hd (ws @ body))"
    using assms(3,4) hash_not_space by (cases ws; auto simp: eqc_def)+
  then have "takeWhile (eqc CHR ''#'') (?h @ ws @ body) = ?h"
    by (intro takeWhile_run) (auto simp: eqc_def)
  then have g1: "greedy_max (eqc CHR ''#'') (Some 6) (?h @ ws @ body) = k"
    using assms(2) by (simp add: greedy_max_def)
  have r1: "m_items [Rep (Some 1) (eqc CHR ''#'') 1 (Some 6), Rep None is_space 1 None,
                     Rep (Some 2) is_dot 1 None, Eol] 0 (?h @ ws @ body)
            = Some ([(1, ?h), (2, body)], k + length ws + length body)"
    using m_rep_hit [of 1 k "[Rep None is_space 1 None, Rep (Some 2) is_dot 1 None, Eol]" 0
                       "?h @ ws @ body" "[(2, body)]" "length ws + length body" "Some 1"]
          assms(1) r2
    by (simp add: g1 capture_def)
  show ?thesis
    using r1 by (simp add: heading_regex_def str_match_Bol)
qed

lemma step_heading:
  assumes "1 \<le> k" and "k \<le> 6" and "ws \<noteq> []" and "\<forall>c\<in>set ws. is_space c"
    and "body \<noteq> []" and "\<not> is_space (hd body)" and "\<forall>c\<in>set body. \<not> is_line_terminator c"
    and "\<not> inCodeBlock st"
  shows "step st (replicate k (ch CHR ''#'') @ ws @ body)
         = st\<lparr>content := content st @ [Heading k (parseInlineFormatting body)]\<rparr>"
proof -
  let ?line = "replicate k (ch CHR ''#'') @ ws @ body"
  from assms(1) have hd: "?line \<noteq> []" "hd ?line = ch CHR ''#''"
    by (cases k; simp)+
  from trim_hd [of ?line] hd hash_not_space
  have t: "trim ?line \<noteq> []" "hd (trim ?line) = ch CHR ''#''" by simp_all
  then have nf: "\<not> startsWith (trim ?line) (js ''```'')"
    by (intro not_fence) (simp add: ch_def)
  show ?thesis
    using nf t(1) assms(8)
    by (simp add: step_def heading_match [OF assms(1-7)] mk_match_def str_def Let_def)
qed

lemma step_blank:
  "trim line = [] \<Longrightarrow> \<not> inCodeBlock st \<Longrightarrow> step st line = st"
  by (simp add: step_def startsWith_def js_def)

text \<open>
  What the heading rule and the blank-line rule do, outside a code block: a line of \<open>k\<close>
  number signs, \<open>1 \<le> k \<le> 6\<close>, then a non-empty run of whitespace, then a non-empty
  content that starts with no whitespace and holds no line terminator appends a heading of
  level \<open>k\<close> whose inline content is the tokenized content; a blank line leaves the state
  as it is.
\<close>

lemma heading_and_blank_line_step:
  "(1 \<le> k \<and> k \<le> 6 \<and> ws \<noteq> [] \<and> (\<forall>c\<in>set ws. is_space c)
      \<and> body \<noteq> [] \<and> \<not> is_space (hd body) \<and> (\<forall>c\<in>set body. \<not> is_line_terminator c)
      \<and> \<not> inCodeBlock st \<longrightarrow>
    step st (replicate k (ch CHR ''#'') @ ws @ body)
      = st\<lparr>content := content st @ [Heading k (parseInlineFormatting body)]\<rparr>)
   \<and> (trim line = [] \<and> \<not> inCodeBlock st \<longrightarrow> step st line = st)
   \<and> textToADF (js ''# Title'' @ [NL, NL] @ js ''Body'')
       = Doc 1 [Heading 1 [Text (js ''Title'') []], Paragraph [Text (js ''Body'') []]]"
proof (intro conjI impI)
  assume "1 \<le> k \<and> k \<le> 6 \<and> ws \<noteq> [] \<and> (\<forall>c\<in>set ws. is_space c)
      \<and> body \<noteq> [] \<and> \<not> is_space (hd body) \<and> (\<forall>c\<in>set body. \<not> is_line_terminator c)
      \<and> \<not> inCodeBlock st"
  then show "step st (replicate k (ch CHR ''#'') @ ws @ body)
      = st\<lparr>content := content st @ [Heading k (parseInlineFormatting body)]\<rparr>"
    by (intro step_heading) simp_all
next
  assume "trim line = [] \<and> \<not> inCodeBlock st"
  then show "step st line = st"
    by (simp add: step_blank)
next
  show "textToADF (js ''# Title'' @ [NL, NL] @ js ''Body'')
       = Doc 1 [Heading 1 [Text (js ''Title'') []], Paragraph [Text (js ''Body'') []]]"
    by code_simp
qed

text \<open>
  C7. A defect of the code: the heading rule misses a heading line that ends in a carriage
  return, which is what a text with CRLF line ends gives once it is split at the line
  feeds. The line made of one number sign, a space and \<open>Title\<close> followed by a carriage
  return is a line of one number sign, whitespace and content, and outside a code block
  the claim asks for a heading of level 1; the converter emits a paragraph holding the
  whole line, because the heading pattern is applied to the untrimmed line, its dot
  matches no line terminator and its end anchor wants the end of the line. With CRLF line
  ends the example of the specification gives two paragraphs and no heading. The sibling
  rules trim the line before they test it and do not miss: a bullet line and an ordered
  line that end in a carriage return still give their lists.
\<close>

theorem C7_heading_line_ending_in_CR:
  "js ''# Title'' @ [0x0D] = replicate 1 (ch CHR ''#'') @ [ch CHR '' ''] @ (js ''Title'' @ [0x0D])
   \<and> is_space (ch CHR '' '')
   \<and> step init (js ''# Title'' @ [0x0D])
       = init\<lparr>content := [Paragraph [Text (js ''# Title'' @ [0x0D]) []]]\<rparr>
   \<and> textToADF (js ''# Title'' @ [0x0D]) = Doc 1 [Paragraph [Text (js ''# Title'' @ [0x0D]) []]]
   \<and> textToADF (js ''# Title'' @ [0x0D, NL, 0x0D, NL] @ js ''Body'')
       = Doc 1 [Paragraph [Text (js ''# Title'' @ [0x0D]) []], Paragraph [Text (js ''Body'') []]]
   \<and> step init (js ''- a'' @ [0x0D])
       = init\<lparr>content := [BulletList [ListItem [Paragraph [Text (js ''a'') []]]]]\<rparr>
   \<and> step init (js ''1. a'' @ [0x0D])
       = init\<lparr>content := [OrderedList [ListItem [Paragraph [Text (js ''a'') []]]]]\<rparr>"
  by code_simp

section \<open>The text of the nodes and the line\<close>

fun node_text :: "node \<Rightarrow> jstring" where
  "node_text (Text t ms) = t"
| "node_text n = []"

definition plain_text :: "node list \<Rightarrow> jstring" where
  "plain_text ns = concat (map node_text ns)"

text \<open>
  The line with the recognised spans replaced by what stands between their delimiters:
  the text before a match is kept, of the match the groups listed in \<open>keep\<close> are kept
  (every alternative of the pattern is delimiters around one or two captured groups),
  and the rest of the line is treated the same way.
\<close>

function strip :: "nat list \<Rightarrow> jstring \<Rightarrow> nat \<Rightarrow> jstring" where
  "strip keep text pos =
     (case inline_exec text pos of
        None \<Rightarrow> drop pos text
      | Some m \<Rightarrow>
          substring text pos (index m) @ concat (map (\<lambda>i. str (grp m i)) keep)
          @ strip keep text (index m + match_length m))"
  by pat_completeness auto
termination
proof (relation "measure (\<lambda>(keep, text, pos). Suc (length text) - pos)")
  show "wf (measure (\<lambda>(keep, text, pos). Suc (length text) - pos))"
    by simp
next
  fix keep :: "nat list" and t :: jstring and pos :: nat and m
  assume "inline_exec t pos = Some m"
  from inline_exec_advances [OF this]
  show "((keep, t, index m + match_length m), (keep, t, pos))
        \<in> measure (\<lambda>(keep, text, pos). Suc (length text) - pos)"
    by simp
qed

declare strip.simps [simp del]

text \<open>
  Following the words of the specification: only the delimiters of a recognised span are
  taken away, so of a link both the label (group 2) and the href (group 3) stay.
\<close>

definition strip_delimiters :: "jstring \<Rightarrow> jstring" where
  "strip_delimiters line = strip [2, 3, 4, 5, 6, 7, 8, 9] line 0"

text \<open>The same, with the href of a link taken away as well.\<close>

definition strip_markup :: "jstring \<Rightarrow> jstring" where
  "strip_markup line = strip [2, 4, 5, 6, 7, 8, 9] line 0"

fun bounds :: "item list \<Rightarrow> (nat \<times> nat) list" where
  "bounds [] = []"
| "bounds (Rep (Some g) p lo hi # its) = (g, lo) # bounds its"
| "bounds (i # its) = bounds its"

definition cap_ok :: "nat \<times> jstring \<Rightarrow> nat \<times> nat \<Rightarrow> bool" where
  "cap_ok c b = (fst c = fst b \<and> snd b \<le> length (snd c))"

lemma m_items_caps:
  "m_items its pos s = Some r \<Longrightarrow> list_all2 cap_ok (fst r) (bounds its)"
  "m_rep g its pos s lo k = Some r \<Longrightarrow> k \<le> length s \<Longrightarrow>
     list_all2 cap_ok (fst r) ((case g of None \<Rightarrow> [] | Some i \<Rightarrow> [(i, lo)]) @ bounds its)"
proof (induction its pos s and g its pos s lo k arbitrary: r and r rule: m_items_m_rep.induct)
  case (1 pos s)
  then show ?case by auto
next
  case (2 p its pos s)
  then show ?case by (fastforce split: list.splits if_splits option.splits)
next
  case (3 g p lo hi its pos s)
  have "greedy_max p hi s \<le> length s"
    by (auto simp: greedy_max_def Let_def length_takeWhile_le split: option.splits
             intro: le_trans [OF min.cobounded2])
  with 3 show ?case by (cases g) auto
next
  case (4 its pos s)
  then show ?case by (simp split: if_splits)
next
  case (5 its pos s)
  then show ?case by (simp split: if_splits)
next
  case (6 g its pos s lo k)
  from "6.prems"(1) have nlt: "\<not> k < lo"
    by (simp add: m_rep.simps [of g its pos s lo k] split: if_splits)
  show ?case
  proof (cases "m_items its (pos + k) (drop k s)")
    case None
    with "6.prems" nlt have k: "k \<noteq> 0" and r: "m_rep g its pos s lo (k - 1) = Some r"
      by (simp_all add: m_rep.simps [of g its pos s lo k] split: if_splits)
    from "6.prems"(2) have "k - 1 \<le> length s" by simp
    from "6.IH"(2) [OF nlt None k r this] show ?thesis .
  next
    case (Some a)
    obtain caps n where a: "a = (caps, n)" by (cases a)
    from "6.prems"(1) nlt Some a have r: "r = (capture g (take k s) @ caps, k + n)"
      by (simp add: m_rep.simps [of g its pos s lo k])
    from "6.IH"(1) [OF nlt Some] a have tl: "list_all2 cap_ok caps (bounds its)" by simp
    from nlt "6.prems"(2) have hd: "cap_ok (i, take k s) (i, lo)" for i
      by (simp add: cap_ok_def)
    from tl hd show ?thesis
      by (cases g) (simp_all add: r capture_def)
  qed
qed

lemma m_alts_Some:
  "m_alts re pos s = Some r \<Longrightarrow> \<exists>a\<in>set re. m_items a pos s = Some r"
  by (induction re) (auto split: option.splits)

lemma re_search_Some:
  "re_search re whole pos s = Some m \<Longrightarrow>
   \<exists>pos' s' r. m_alts re pos' s' = Some r \<and> m = mk_match whole pos' s' r"
proof (induction s arbitrary: pos)
  case Nil
  then show ?case
    by (auto simp: re_search.simps [of re whole pos "[]"] split: option.splits)
next
  case (Cons c s)
  show ?case
  proof (cases "m_alts re pos (c # s)")
    case None
    with Cons.prems have "re_search re whole (Suc pos) s = Some m"
      by (simp add: re_search.simps [of re whole pos "c # s"])
    from Cons.IH [OF this] show ?thesis .
  next
    case (Some r)
    with Cons.prems have "m = mk_match whole pos (c # s) r"
      by (simp add: re_search.simps [of re whole pos "c # s"])
    with Some show ?thesis by blast
  qed
qed

definition kept :: "rmatch \<Rightarrow> jstring" where
  "kept m = concat (map (\<lambda>i. str (grp m i)) [2, 4, 5, 6, 7, 8, 9])"

lemma push_match_text:
  assumes "inline_exec text pos = Some m"
  shows "plain_text (push_match m result) = plain_text result @ kept m
         \<and> push_match m result \<noteq> []"
proof -
  from assms obtain pos' s' r where alts: "m_alts inline_regex pos' s' = Some r"
    and m: "m = mk_match [0, 1] pos' s' r"
    by (auto simp: inline_exec_def exec_def split: if_splits dest: re_search_Some)
  from m_alts_inline_nonempty [OF alts] m_alts_length [OF alts]
  have w: "take (snd r) s' \<noteq> []" by auto
  from m_alts_Some [OF alts] obtain a where "a \<in> set inline_regex"
    and "m_items a pos' s' = Some r" by blast
  from this(1) m_items_caps(1) [OF this(2)]
  have "list_all2 cap_ok (fst r) [(2, 1), (3, 1)] \<or> list_all2 cap_ok (fst r) [(4, 0)]
        \<or> list_all2 cap_ok (fst r) [(5, 1)] \<or> list_all2 cap_ok (fst r) [(6, 1)]
        \<or> list_all2 cap_ok (fst r) [(7, 1)] \<or> list_all2 cap_ok (fst r) [(8, 1)]
        \<or> list_all2 cap_ok (fst r) [(9, 1)]"
    by (auto simp: inline_regex_def)
  then consider
      (link) x y where "fst r = [(2, x), (3, y)]" "x \<noteq> []" "y \<noteq> []"
    | (code) x where "fst r = [(4, x)]"
    | (one) g x where "fst r = [(g, x)]" "x \<noteq> []" "g = 5 \<or> g = 6 \<or> g = 7 \<or> g = 8 \<or> g = 9"
    by (auto simp: list_all2_Cons2 cap_ok_def Suc_le_eq)
  then show ?thesis
  proof cases
    case link
    with w show ?thesis
      by (simp add: m mk_match_def push_match_def truthy_def str_def kept_def plain_text_def)
  next
    case code
    then show ?thesis
      by (simp add: m mk_match_def push_match_def truthy_def str_def kept_def plain_text_def)
  next
    case one
    from one(3) one(1,2) show ?thesis
      by (elim disjE)
         (simp_all add: m mk_match_def push_match_def truthy_def str_def kept_def plain_text_def)
  qed
qed


lemma push_plain_text:
  "pos \<le> index m \<Longrightarrow>
   plain_text (push_plain t pos m result) = plain_text result @ substring t pos (index m)"
  by (auto simp: push_plain_def Let_def plain_text_def substring_def)

lemma push_plain_length: "length result \<le> length (push_plain t pos m result)"
  by (simp add: push_plain_def Let_def)

lemma push_match_length: "length result \<le> length (push_match m result)"
  by (simp add: push_match_def)

lemma scan_length: "length result \<le> length (snd (scan t li cp result))"
proof (induction t li cp result rule: scan.induct)
  case (1 t li cp result)
  show ?case
  proof (cases "inline_exec t li")
    case None
    then show ?thesis by (simp add: scan.simps [of t li cp result])
  next
    case (Some m)
    from "1.IH" [OF Some] push_match_length [of "push_plain t cp m result" m]
         push_plain_length [of result t cp m] Some
    show ?thesis by (simp add: scan.simps [of t li cp result])
  qed
qed

lemma scan_strip:
  "li = cp \<Longrightarrow>
   plain_text (snd (scan t li cp result)) @ drop (fst (scan t li cp result)) t
     = plain_text result @ strip [2, 4, 5, 6, 7, 8, 9] t cp"
proof (induction t li cp result rule: scan.induct)
  case (1 t li cp result)
  show ?case
  proof (cases "inline_exec t li")
    case None
    with "1.prems" show ?thesis
      by (simp add: scan.simps [of t _ cp result] strip.simps [of _ t cp])
  next
    case (Some m)
    let ?e = "index m + match_length m"
    let ?r = "push_match m (push_plain t cp m result)"
    from inline_exec_advances(3) [OF Some] "1.prems" have le: "cp \<le> index m" by simp
    have "plain_text (snd (scan t li cp result)) @ drop (fst (scan t li cp result)) t
          = plain_text (snd (scan t ?e ?e ?r)) @ drop (fst (scan t ?e ?e ?r)) t"
      using Some by (simp add: scan.simps [of t _ cp result])
    also have "\<dots> = plain_text ?r @ strip [2, 4, 5, 6, 7, 8, 9] t ?e"
      by (rule "1.IH" [OF Some refl])
    also have "plain_text ?r = plain_text result @ substring t cp (index m) @ kept m"
      using push_match_text [OF Some] push_plain_text [OF le] by simp
    finally show ?thesis
      using Some "1.prems" by (simp add: strip.simps [of _ t cp] kept_def)
  qed
qed

lemma scan_empty:
  assumes "snd (scan t 0 0 []) = []"
  shows "scan t 0 0 [] = (0, [])"
proof (cases "inline_exec t 0")
  case None
  then show ?thesis by (simp add: scan.simps [of t 0 0 "[]"])
next
  case (Some m)
  let ?r = "push_match m (push_plain t 0 m [])"
  from push_match_text [OF Some] have "0 < length ?r" by simp
  also have "length ?r \<le> length (snd (scan t (index m + match_length m) (index m + match_length m) ?r))"
    by (rule scan_length)
  also have "\<dots> = length (snd (scan t 0 0 []))"
    using Some by (simp add: scan.simps [of t 0 0 "[]"])
  finally show ?thesis using assms by simp
qed

text \<open>
  C3, as stated, fails on a link: the text fields give the label only, while the line
  without the delimiters of the link (the brackets and the parentheses) still holds the
  href.
\<close>

theorem C3_counterexample:
  "plain_text (parseInlineFormatting (js ''[go](http://example.com)'')) = js ''go''
   \<and> strip_delimiters (js ''[go](http://example.com)'') = js ''gohttp://example.com''
   \<and> plain_text (parseInlineFormatting (js ''[go](http://example.com)''))
       \<noteq> strip_delimiters (js ''[go](http://example.com)'')"
  by code_simp

text \<open>
  C3, amended. For every line, the concatenation of the text fields of the nodes the
  tokenizer returns is the line with every recognised span replaced by its inner text,
  which for a link is the label alone: the delimiters go, and so does the href, which is
  kept in the mark and not in the text.
\<close>

theorem C3_plain_text_of_tokens:
  "plain_text (parseInlineFormatting line) = strip_markup line"
proof -
  obtain cp result where sc: "scan line 0 0 [] = (cp, result)"
    by (cases "scan line 0 0 []")
  from scan_strip [of 0 0 line "[]"] sc
  have eq: "plain_text result @ drop cp line = strip_markup line"
    by (simp add: strip_markup_def plain_text_def)
  show ?thesis
  proof (cases "result = [] \<and> drop cp line = []")
    case True
    with sc scan_empty [of line] have "cp = 0" by simp
    with True have "line = []" by simp
    with True eq sc show ?thesis
      by (simp add: parseInlineFormatting_def plain_text_def)
  next
    case False
    with eq sc show ?thesis
      by (auto simp: parseInlineFormatting_def plain_text_def)
  qed
qed

theorem C3_plain_text_of_tokens_witness:
  "plain_text (parseInlineFormatting (js ''a *b* [go](http://x) `` *''))= js ''a b go  *''
   \<and> strip_markup (js ''a *b* [go](http://x) `` *'') = js ''a b go  *''"
proof -
  have "strip_markup (js ''a *b* [go](http://x) `` *'') = js ''a b go  *''"
    by code_simp
  with C3_plain_text_of_tokens [of "js ''a *b* [go](http://x) `` *''"] show ?thesis
    by simp
qed

section \<open>The marks of the nodes\<close>

text \<open>
  The scan of the specification, written from its words: at each match, the plain text
  since the previous match is one node without marks (when it is not empty), and the
  match is one node with exactly one mark: the link with its href for the link form, code
  for inline code, strong for bold, strike for strikethrough, em for italic. The form is
  told by the group that took part in the match.
\<close>

definition spec_span :: "rmatch \<Rightarrow> node" where
  "spec_span m =
     (if grp m 2 \<noteq> None then Text (str (grp m 2)) [Link (str (grp m 3))]
      else if grp m 4 \<noteq> None then Text (str (grp m 4)) [Code]
      else if grp m 5 \<noteq> None then Text (str (grp m 5)) [Strong]
      else if grp m 6 \<noteq> None then Text (str (grp m 6)) [Strong]
      else if grp m 7 \<noteq> None then Text (str (grp m 7)) [Strike]
      else if grp m 8 \<noteq> None then Text (str (grp m 8)) [Em]
      else Text (str (grp m 9)) [Em])"

definition spec_plain :: "jstring \<Rightarrow> node list" where
  "spec_plain s = (if s = [] then [] else [Text s []])"

function spec_runs :: "jstring \<Rightarrow> nat \<Rightarrow> node list" where
  "spec_runs line pos =
     (case inline_exec line pos of
        None \<Rightarrow> spec_plain (drop pos line)
      | Some m \<Rightarrow>
          spec_plain (substring line pos (index m)) @ [spec_span m]
          @ spec_runs line (index m + match_length m))"
  by pat_completeness auto
termination
proof (relation "measure (\<lambda>(line, pos). Suc (length line) - pos)")
  show "wf (measure (\<lambda>(line, pos). Suc (length line) - pos))"
    by simp
next
  fix t :: jstring and pos :: nat and m
  assume "inline_exec t pos = Some m"
  from inline_exec_advances [OF this]
  show "((t, index m + match_length m), (t, pos))
        \<in> measure (\<lambda>(line, pos). Suc (length line) - pos)"
    by simp
qed

declare spec_runs.simps [simp del]

definition spec_tokenize :: "jstring \<Rightarrow> node list" where
  "spec_tokenize line = (if spec_runs line 0 = [] then [Text line []] else spec_runs line 0)"

lemma spec_span_one_mark: "\<exists>txt mk. spec_span m = Text txt [mk]"
  by (simp add: spec_span_def)

lemma push_match_span:
  assumes "inline_exec t pos = Some m"
  shows "push_match m result = result @ [spec_span m]"
proof -
  from assms obtain pos' s' r where alts: "m_alts inline_regex pos' s' = Some r"
    and m: "m = mk_match [0, 1] pos' s' r"
    by (auto simp: inline_exec_def exec_def split: if_splits dest: re_search_Some)
  from m_alts_inline_nonempty [OF alts] m_alts_length [OF alts]
  have w: "take (snd r) s' \<noteq> []" by auto
  from m_alts_Some [OF alts] obtain a where "a \<in> set inline_regex"
    and "m_items a pos' s' = Some r" by blast
  from this(1) m_items_caps(1) [OF this(2)]
  have "list_all2 cap_ok (fst r) [(2, 1), (3, 1)] \<or> list_all2 cap_ok (fst r) [(4, 0)]
        \<or> list_all2 cap_ok (fst r) [(5, 1)] \<or> list_all2 cap_ok (fst r) [(6, 1)]
        \<or> list_all2 cap_ok (fst r) [(7, 1)] \<or> list_all2 cap_ok (fst r) [(8, 1)]
        \<or> list_all2 cap_ok (fst r) [(9, 1)]"
    by (auto simp: inline_regex_def)
  then consider
      (link) x y where "fst r = [(2, x), (3, y)]" "x \<noteq> []" "y \<noteq> []"
    | (code) x where "fst r = [(4, x)]"
    | (one) g x where "fst r = [(g, x)]" "x \<noteq> []" "g = 5 \<or> g = 6 \<or> g = 7 \<or> g = 8 \<or> g = 9"
    by (auto simp: list_all2_Cons2 cap_ok_def Suc_le_eq)
  then show ?thesis
  proof cases
    case link
    with w show ?thesis
      by (simp add: m mk_match_def push_match_def truthy_def str_def spec_span_def)
  next
    case code
    then show ?thesis
      by (simp add: m mk_match_def push_match_def truthy_def str_def spec_span_def)
  next
    case one
    from one(3) one(1,2) show ?thesis
      by (elim disjE)
         (simp_all add: m mk_match_def push_match_def truthy_def str_def spec_span_def)
  qed
qed

lemma push_plain_spec:
  "cp \<le> index m \<Longrightarrow>
   push_plain t cp m result = result @ spec_plain (substring t cp (index m))"
  by (auto simp: push_plain_def Let_def spec_plain_def substring_def)

lemma scan_spec_runs:
  "li = cp \<Longrightarrow>
   snd (scan t li cp result) @ spec_plain (drop (fst (scan t li cp result)) t)
     = result @ spec_runs t cp"
proof (induction t li cp result rule: scan.induct)
  case (1 t li cp result)
  show ?case
  proof (cases "inline_exec t li")
    case None
    with "1.prems" show ?thesis
      by (simp add: scan.simps [of t _ cp result] spec_runs.simps [of t cp])
  next
    case (Some m)
    let ?e = "index m + match_length m"
    let ?r = "push_match m (push_plain t cp m result)"
    from inline_exec_advances(3) [OF Some] "1.prems" have le: "cp \<le> index m" by simp
    have "snd (scan t li cp result) @ spec_plain (drop (fst (scan t li cp result)) t)
          = snd (scan t ?e ?e ?r) @ spec_plain (drop (fst (scan t ?e ?e ?r)) t)"
      using Some by (simp add: scan.simps [of t _ cp result])
    also have "\<dots> = ?r @ spec_runs t ?e"
      by (rule "1.IH" [OF Some refl])
    also have "?r = result @ spec_plain (substring t cp (index m)) @ [spec_span m]"
      using push_match_span [OF Some] push_plain_spec [OF le] by simp
    finally show ?thesis
      using Some "1.prems" by (simp add: spec_runs.simps [of t cp])
  qed
qed

lemma tokens_spec: "parseInlineFormatting t = spec_tokenize t"
proof -
  obtain cp result where sc: "scan t 0 0 [] = (cp, result)"
    by (cases "scan t 0 0 []")
  from scan_spec_runs [of 0 0 t "[]"] sc
  have eq: "result @ spec_plain (drop cp t) = spec_runs t 0"
    by simp
  have "(if cp < length t then
               (let plainText = drop cp t
                in if plainText \<noteq> [] then result @ [Text plainText []] else result)
             else result) = result @ spec_plain (drop cp t)"
    by (simp add: spec_plain_def)
  with eq sc show ?thesis
    by (simp add: parseInlineFormatting_def spec_tokenize_def)
qed

text \<open>
  C9. For every line the tokenizer returns exactly the nodes of the specification's scan:
  a node without marks for each non-empty stretch of plain text (and for a line without
  any match, the whole line), and for each matched span one node that carries exactly one
  mark, which is one of link, code, strong, strike and em, the link holding its one href.
  So every node is a text node with at most one mark, and marks are never combined on a
  node.
\<close>

theorem C9_one_mark_per_span:
  "parseInlineFormatting t = spec_tokenize t
   \<and> (\<forall>n\<in>set (parseInlineFormatting t). \<exists>txt ms. n = Text txt ms \<and> length ms \<le> 1)
   \<and> (\<exists>txt. spec_span m = Text txt [Code] \<or> spec_span m = Text txt [Strong]
             \<or> spec_span m = Text txt [Strike] \<or> spec_span m = Text txt [Em]
             \<or> (\<exists>href. spec_span m = Text txt [Link href]))"
proof (intro conjI)
  show "parseInlineFormatting t = spec_tokenize t"
    by (rule tokens_spec)
  show "\<forall>n\<in>set (parseInlineFormatting t). \<exists>txt ms. n = Text txt ms \<and> length ms \<le> 1"
    by (rule tokens_at_most_one_mark)
  show "\<exists>txt. spec_span m = Text txt [Code] \<or> spec_span m = Text txt [Strong]
             \<or> spec_span m = Text txt [Strike] \<or> spec_span m = Text txt [Em]
             \<or> (\<exists>href. spec_span m = Text txt [Link href])"
    by (simp add: spec_span_def)
qed

theorem C9_one_mark_per_span_witness:
  "parseInlineFormatting (js ''a [go](http://x) `c` ~~d~~'')
     = [Text (js ''a '') [], Text (js ''go'') [Link (js ''http://x'')], Text (js '' '') [],
        Text (js ''c'') [Code], Text (js '' '') [], Text (js ''d'') [Strike]]
   \<and> Text (js ''go'') [Link (js ''http://x'')]
       \<in> set (parseInlineFormatting (js ''a [go](http://x) `c` ~~d~~''))
   \<and> (\<exists>txt ms. Text (js ''go'') [Link (js ''http://x'')] = Text txt ms \<and> length ms \<le> 1)"
proof -
  let ?t = "js ''a [go](http://x) `c` ~~d~~''"
  have sp: "spec_tokenize ?t
     = [Text (js ''a '') [], Text (js ''go'') [Link (js ''http://x'')], Text (js '' '') [],
        Text (js ''c'') [Code], Text (js '' '') [], Text (js ''d'') [Strike]]"
    by code_simp
  from C9_one_mark_per_span [of ?t]
  have eq: "parseInlineFormatting ?t = spec_tokenize ?t"
    and one: "\<forall>n\<in>set (parseInlineFormatting ?t). \<exists>txt ms. n = Text txt ms \<and> length ms \<le> 1"
    by blast+
  from eq sp have h: "parseInlineFormatting ?t
     = [Text (js ''a '') [], Text (js ''go'') [Link (js ''http://x'')], Text (js '' '') [],
        Text (js ''c'') [Code], Text (js '' '') [], Text (js ''d'') [Strike]]"
    by simp
  then have m: "Text (js ''go'') [Link (js ''http://x'')] \<in> set (parseInlineFormatting ?t)"
    by simp
  from one m h show ?thesis by blast
qed

end
